theory Spec2Isabelle
  imports
    Complex_Main
    "HOL-Library.Sublist"
    "HOL-Library.Char_ord"
    "HOL-Library.List_Lexorder"
    "HOL-Library.Multiset"
begin

section \<open>Python strings\<close>

text \<open>
  A Python \<open>str\<close> is modelled as a \<open>string\<close>, one \<open>char\<close> per code point, for the code
  points below 256. Python floats are modelled as exact reals: the models below add and
  compare them, and rounding is outside the model.

  \<open>kw in t\<close> on strings is contiguous containment, which is \<^const>\<open>sublist\<close>.
\<close>

definition isspace :: "char \<Rightarrow> bool" where
  \<comment> \<open>\<open>str.isspace\<close> on one code point below 256\<close>
  "isspace c \<longleftrightarrow> (of_char c :: nat) \<in> {9, 10, 11, 12, 13, 28, 29, 30, 31, 32, 133, 160}"

definition lower_char :: "char \<Rightarrow> char" where
  \<comment> \<open>\<open>str.lower\<close> on one code point below 256: A-Z and the Latin-1 capitals\<close>
  "lower_char c =
     (if (65 \<le> (of_char c :: nat) \<and> (of_char c :: nat) \<le> 90) \<or>
         (192 \<le> (of_char c :: nat) \<and> (of_char c :: nat) \<le> 222 \<and> (of_char c :: nat) \<noteq> 215)
      then char_of ((of_char c :: nat) + 32) else c)"

definition lower :: "string \<Rightarrow> string" where
  "lower s = map lower_char s"

definition strip :: "string \<Rightarrow> string" where
  \<comment> \<open>\<open>s.strip()\<close>: leading and trailing whitespace removed\<close>
  "strip s = rev (dropWhile isspace (rev (dropWhile isspace s)))"

definition replace_char :: "char \<Rightarrow> char \<Rightarrow> string \<Rightarrow> string" where
  \<comment> \<open>\<open>s.replace(a, b)\<close> for one-character \<open>a\<close> and \<open>b\<close>\<close>
  "replace_char a b s = map (\<lambda>c. if c = a then b else c) s"

fun split_acc :: "string \<Rightarrow> string \<Rightarrow> string list" where
  "split_acc cur [] = (if cur = [] then [] else [cur])"
| "split_acc cur (c # cs) =
     (if isspace c then (if cur = [] then split_acc [] cs else cur # split_acc [] cs)
      else split_acc (cur @ [c]) cs)"

definition split :: "string \<Rightarrow> string list" where
  \<comment> \<open>\<open>s.split()\<close>: the maximal runs of non-whitespace\<close>
  "split s = split_acc [] s"

section \<open>summarize\_root\_causes.py\<close>

definition ROOT_CAUSE_KEYWORDS :: "(string \<times> string list) list" where
  \<comment> \<open>the dict literal, in its insertion order\<close>
  "ROOT_CAUSE_KEYWORDS =
    [(''Slip/Trip (wet floor)'', [''slip'', ''slipped'', ''wet'', ''floor'', ''pipe'']),
     (''Falling objects'', [''box'', ''shelf'', ''fell'', ''fall'', ''foot'', ''hitting'']),
     (''Cuts/Sharp object'', [''cut'', ''cutter'', ''box cutter'', ''hand'']),
     (''Chemical spill'', [''chemical'', ''spill'', ''storage'']),
     (''Equipment / Forklift'', [''forklift'', ''pallet'', ''collided'', ''knocked'']),
     (''Fire/Overheat'', [''fire'', ''overheated'', ''alarm'', ''triggered'']),
     (''Maintenance/Fall'', [''ladder'', ''maintenance'', ''task'']),
     (''Electrical'', [''wiring'', ''electrical'', ''spark'']),
     (''Struck by/against'', [''head'', ''beam'', ''struck''])]"

fun any_kw_in :: "string list \<Rightarrow> string \<Rightarrow> bool" where
  \<comment> \<open>the inner loop of \<open>match_root_cause\<close>: stops at the first keyword found in \<open>t\<close>\<close>
  "any_kw_in [] t = False"
| "any_kw_in (kw # keywords) t = (if sublist kw t then True else any_kw_in keywords t)"

fun match_loop :: "(string \<times> string list) list \<Rightarrow> string \<Rightarrow> string list \<Rightarrow> string list" where
  \<comment> \<open>the outer loop of \<open>match_root_cause\<close>, with the list \<open>matched\<close> built so far\<close>
  "match_loop [] t matched = matched"
| "match_loop ((rc, keywords) # rest) t matched =
     match_loop rest t (if any_kw_in keywords t then matched @ [rc] else matched)"

definition match_root_cause :: "string \<Rightarrow> string list" where
  "match_root_cause token = match_loop ROOT_CAUSE_KEYWORDS (lower token) []"


datatype json_feat = JFeat (jf_feature: "string option") (jf_weight: "real option")
  \<comment> \<open>one object of an incident's \<open>"explanation"\<close> array; \<open>None\<close> is a missing key\<close>

datatype json_incident = JIncident (inc_explanation: "json_feat list option")
  \<comment> \<open>one object of \<open>incident_log.json\<close>; only \<open>"explanation"\<close> is read\<close>

fun dict_add :: "string \<Rightarrow> 'a::monoid_add \<Rightarrow> (string \<times> 'a) list \<Rightarrow> (string \<times> 'a) list" where
  \<comment> \<open>\<open>d[k] += w\<close> on a \<open>defaultdict\<close> kept in insertion order: a new key goes last,
      starting from the default \<open>0\<close>\<close>
  "dict_add k w [] = [(k, 0 + w)]"
| "dict_add k w ((k', v) # d) =
     (if k' = k then (k', v + w) # d else (k', v) # dict_add k w d)"

fun dict_get :: "(string \<times> 'a::zero) list \<Rightarrow> string \<Rightarrow> 'a" where
  \<comment> \<open>\<open>d[k]\<close> read from a \<open>defaultdict\<close>: the default \<open>0\<close> for a missing key\<close>
  "dict_get [] k = 0"
| "dict_get ((k', v) # d) k = (if k' = k then v else dict_get d k)"

record agg =
  rc_scores :: "(string \<times> real) list"
  rc_counts :: "(string \<times> int) list"

definition stop_words :: "string list" where
  "stop_words = [''and'', ''the'', ''of'', ''in'', ''to'', ''by'', ''with'', ''from'']"

definition credit :: "real \<Rightarrow> string \<Rightarrow> agg \<Rightarrow> agg" where
  \<comment> \<open>\<open>rc_scores[rc] += weight; rc_counts[rc] += 1\<close>\<close>
  "credit weight rc st =
     st\<lparr>rc_scores := dict_add rc weight (rc_scores st),
        rc_counts := dict_add rc 1 (rc_counts st)\<rparr>"

definition subtoks :: "string \<Rightarrow> string list" where
  "subtoks token = filter (\<lambda>t. length t > 2) (split (replace_char CHR ''_'' CHR '' '' token))"

fun first_subtok_match :: "string list \<Rightarrow> string list" where
  \<comment> \<open>the loop over \<open>subtoks\<close>: the first non-empty match, and \<open>matched\<close> stays empty
      when there is none\<close>
  "first_subtok_match [] = []"
| "first_subtok_match (st # sts) =
     (let m2 = match_root_cause st in if m2 \<noteq> [] then m2 else first_subtok_match sts)"

definition matched_of :: "string \<Rightarrow> string list" where
  \<comment> \<open>lines 53 to 61: \<open>matched\<close> when line 63 is reached\<close>
  "matched_of token =
     (let matched = match_root_cause token
      in if matched = [] then first_subtok_match (subtoks token) else matched)"

definition feat_token :: "json_feat \<Rightarrow> string" where
  \<comment> \<open>\<open>feat.get("feature", "").strip()\<close>\<close>
  "feat_token feat = strip (case jf_feature feat of None \<Rightarrow> [] | Some f \<Rightarrow> f)"

definition feat_weight :: "json_feat \<Rightarrow> real" where
  \<comment> \<open>\<open>abs(feat.get("weight", 0.0))\<close>\<close>
  "feat_weight feat = \<bar>case jf_weight feat of None \<Rightarrow> 0 | Some w \<Rightarrow> w\<bar>"

definition skipped :: "string \<Rightarrow> bool" where
  \<comment> \<open>the test of line 51, on the stripped token\<close>
  "skipped token \<longleftrightarrow> length token = 0 \<or> lower token \<in> set stop_words"

definition scan_feat :: "json_feat \<Rightarrow> agg \<Rightarrow> agg" where
  \<comment> \<open>one pass of the loop over \<open>explanation\<close>, lines 48 to 69\<close>
  "scan_feat feat st =
     (let token = feat_token feat;
          weight = feat_weight feat
      in if skipped token then st
         else let matched = matched_of token
              in if matched \<noteq> [] then fold (credit weight) matched st
                 else credit weight ''Other'' st)"

definition explanation_of :: "json_incident \<Rightarrow> json_feat list" where
  \<comment> \<open>\<open>inc.get("explanation", [])\<close>\<close>
  "explanation_of inc = (case inc_explanation inc of None \<Rightarrow> [] | Some fs \<Rightarrow> fs)"

definition scan_incident :: "json_incident \<Rightarrow> agg \<Rightarrow> agg" where
  \<comment> \<open>one pass of the loop over \<open>incidents\<close>\<close>
  "scan_incident inc st = fold scan_feat (explanation_of inc) st"

definition aggregate :: "json_incident list \<Rightarrow> agg" where
  \<comment> \<open>lines 41 to 69 of \<open>main\<close>\<close>
  "aggregate incidents = fold scan_incident incidents \<lparr>rc_scores = [], rc_counts = []\<rparr>"

definition sorted_reverse :: "('a \<Rightarrow> 'k::linorder) \<Rightarrow> 'a list \<Rightarrow> 'a list" where
  \<comment> \<open>\<open>sorted(xs, key=f, reverse=True)\<close>: the list is reversed, sorted by a stable
      ascending sort, and reversed again\<close>
  "sorted_reverse f xs = rev (sort_key f (rev xs))"

definition items :: "json_incident list \<Rightarrow> (string \<times> real) list" where
  \<comment> \<open>line 72\<close>
  "items incidents = sorted_reverse snd (rc_scores (aggregate incidents))"

definition labels :: "json_incident list \<Rightarrow> string list" where
  "labels incidents = map fst (items incidents)"


definition counts :: "json_incident list \<Rightarrow> int list" where
  "counts incidents = map (dict_get (rc_counts (aggregate incidents))) (labels incidents)"

section \<open>incident\_logger.py\<close>

text \<open>
  The fitted scikit-learn pipeline and the LIME explainer are objects of libraries, and
  the functions below receive them as arguments. They are modelled by what the functions
  use of them: the named steps and the two prediction methods of a pipeline, on one text;
  the method \<open>explain_instance\<close> of an explainer, which may raise and which advances the
  explainer's random state; the keys of \<open>local_exp\<close> and the method \<open>as_list\<close> of the
  explanation it returns.
\<close>

datatype exn = IndexError | Raised string
  \<comment> \<open>\<open>Raised c\<close>: an exception of class \<open>c\<close> raised inside a library call\<close>

datatype estimator = TfidfVectorizer | LogisticRegression (classes: "string list")

record pipeline =
  named_steps :: "(string \<times> estimator) list"
  predict :: "string \<Rightarrow> string"
  predict_proba :: "string \<Rightarrow> real list"

record lime_explanation =
  local_exp :: "(int \<times> (int \<times> real) list) list"
  as_list :: "int \<Rightarrow> exn + (string \<times> real) list"

record 'r explainer =
  random_state :: 'r
  explain_fn :: "'r \<Rightarrow> string \<Rightarrow> (string \<Rightarrow> real list) \<Rightarrow> nat \<Rightarrow> exn + (lime_explanation \<times> 'r)"

definition explain_instance ::
  "'r explainer \<Rightarrow> string \<Rightarrow> (string \<Rightarrow> real list) \<Rightarrow> nat \<Rightarrow> exn + (lime_explanation \<times> 'r explainer)"
where
  \<comment> \<open>the method call: the result, and the explainer with its random state advanced\<close>
  "explain_instance explainer text prob_fn num_features =
     (case explain_fn explainer (random_state explainer) text prob_fn num_features of
        Inl x \<Rightarrow> Inl x
      | Inr (lime_exp, r) \<Rightarrow> Inr (lime_exp, explainer\<lparr>random_state := r\<rparr>))"

record event =
  ev_id :: string
  timestamp :: string
  location :: string
  description :: string
  witness_count :: int
  injured :: bool

record entry = event +
  predicted_severity :: string
  predicted_proba :: "(string \<times> real) list"
  explanation :: "json_feat list"
  summary :: string

definition label_severity :: "string \<Rightarrow> bool \<Rightarrow> int \<Rightarrow> string" where
  "label_severity descr is_injured witnesses =
     (let desc = lower descr
      in if sublist ''hospital'' desc \<or> is_injured \<or> sublist ''dizziness'' desc \<or>
            sublist ''fire'' desc \<or> sublist ''chemical'' desc
         then ''critical''
         else if sublist ''cut'' desc \<or> sublist ''hit'' desc \<or> witnesses \<ge> 3 then ''major''
         else ''minor'')"

definition train_text_classifier ::
  "(string list \<Rightarrow> string list \<Rightarrow> exn + pipeline) \<Rightarrow> event list \<Rightarrow> exn + (pipeline \<times> string list)"
where
  \<comment> \<open>\<open>fit\<close> stands for building the pipeline and \<open>pipeline.fit(texts, labels)\<close>, which
      returns the fitted pipeline or raises. The \<open>except\<close> branch yields the distinct labels
      (Python fixes no order for \<open>list(set(labels))\<close>; the model takes first occurrences).\<close>
  "train_text_classifier fit events =
     (let texts = map description events;
          labels = map (\<lambda>e. label_severity (description e) (injured e) (witness_count e)) events
      in case fit texts labels of
           Inl x \<Rightarrow> Inl x
         | Inr pipeline \<Rightarrow>
             (case map_of (named_steps pipeline) ''logisticregression'' of
                Some (LogisticRegression cs) \<Rightarrow> Inr (pipeline, cs)
              | _ \<Rightarrow> Inr (pipeline, remdups labels)))"

fun list_index :: "'a list \<Rightarrow> 'a \<Rightarrow> nat option" where
  \<comment> \<open>\<open>xs.index(x)\<close>; \<open>None\<close> is the \<open>ValueError\<close> of an absent element\<close>
  "list_index [] x = None"
| "list_index (y # ys) x = (if y = x then Some 0 else map_option Suc (list_index ys x))"

definition resolve_label_index :: "pipeline \<Rightarrow> string \<Rightarrow> int option" where
  \<comment> \<open>lines 92 to 98: the index of \<open>pred\<close> in the classifier's classes; \<open>None\<close> when
      the step is missing or when the \<open>try\<close> block raises\<close>
  "resolve_label_index pipeline pred =
     (case map_of (named_steps pipeline) ''logisticregression'' of
        Some (LogisticRegression cs) \<Rightarrow> map_option int (list_index cs pred)
      | _ \<Rightarrow> None)"

definition fallback_index :: "lime_explanation \<Rightarrow> int" where
  \<comment> \<open>lines 102 and 103\<close>
  "fallback_index lime_exp =
     (let available = sort (map fst (local_exp lime_exp))
      in if available \<noteq> [] then hd available else 0)"

definition choose_label_index :: "int option \<Rightarrow> lime_explanation \<Rightarrow> int" where
  \<comment> \<open>lines 100 to 103\<close>
  "choose_label_index label_index lime_exp =
     (case label_index of
        None \<Rightarrow> fallback_index lime_exp
      | Some i \<Rightarrow> if i \<in> set (map fst (local_exp lime_exp)) then i else fallback_index lime_exp)"

definition explain_with_lime ::
  "pipeline \<Rightarrow> string list \<Rightarrow> string \<Rightarrow> 'r explainer \<Rightarrow> nat \<Rightarrow>
     exn + (string \<times> json_feat list \<times> lime_explanation \<times> 'r explainer)"
where
  \<comment> \<open>returns \<open>(pred, explanation, exp)\<close> and the explainer after the call\<close>
  "explain_with_lime pipeline class_names text explainer num_features =
     (case explain_instance explainer text (predict_proba pipeline) num_features of
        Inl x \<Rightarrow> Inl x
      | Inr (lime_exp, explainer') \<Rightarrow>
          (let pred = predict pipeline text;
               label_index = choose_label_index (resolve_label_index pipeline pred) lime_exp
           in case as_list lime_exp label_index of
                Inl x \<Rightarrow> Inl x
              | Inr feature_list \<Rightarrow>
                  Inr (pred, map (\<lambda>(f, w). JFeat (Some f) (Some w)) feature_list, lime_exp, explainer')))"

fun dict_set :: "'k \<Rightarrow> 'v \<Rightarrow> ('k \<times> 'v) list \<Rightarrow> ('k \<times> 'v) list" where
  \<comment> \<open>\<open>d[k] = v\<close> on a dict kept in insertion order\<close>
  "dict_set k v [] = [(k, v)]"
| "dict_set k v ((k', v') # d) =
     (if k' = k then (k', v) # d else (k', v') # dict_set k v d)"

fun proba_loop ::
  "string list \<Rightarrow> real list \<Rightarrow> nat list \<Rightarrow> (string \<times> real) list \<Rightarrow> exn + (string \<times> real) list"
where
  \<comment> \<open>the dict comprehension of line 134 over the indices still to visit; \<open>proba[i]\<close>
      raises \<open>IndexError\<close> out of range\<close>
  "proba_loop class_names proba [] d = Inr d"
| "proba_loop class_names proba (i # rest) d =
     (if i < length proba
      then proba_loop class_names proba rest (dict_set (class_names ! i) (proba ! i) d)
      else Inl IndexError)"

definition proba_dict :: "string list \<Rightarrow> real list \<Rightarrow> exn + (string \<times> real) list" where
  "proba_dict class_names proba = proba_loop class_names proba [0..<length class_names] []"

fun join :: "string \<Rightarrow> string list \<Rightarrow> string" where
  "join sep [] = []"
| "join sep [x] = x"
| "join sep (x # y # ys) = x @ sep @ join sep (y # ys)"

definition top_feat :: "json_feat \<Rightarrow> string" where
  \<comment> \<open>line 120, for one feature: the part before the first \<open>=\<close>\<close>
  "top_feat f =
     (let name = (case jf_feature f of None \<Rightarrow> [] | Some n \<Rightarrow> n)
      in if CHR ''='' \<in> set name then takeWhile (\<lambda>c. c \<noteq> CHR ''='') name else name)"

definition make_entry :: "event \<Rightarrow> string \<Rightarrow> (string \<times> real) list \<Rightarrow> json_feat list \<Rightarrow> entry" where
  \<comment> \<open>lines 120 to 137\<close>
  "make_entry e pred proba_map expl =
     \<lparr>ev_id = ev_id e, timestamp = timestamp e, location = location e,
      description = description e, witness_count = witness_count e, injured = injured e,
      predicted_severity = pred,
      predicted_proba = proba_map,
      explanation = expl,
      summary = ''Incident at '' @ location e @ '' on '' @ timestamp e @ '': classified as '' @
        pred @ ''. Key contributing phrases: '' @ join '', '' (map top_feat expl) @ ''.''\<rparr>"

fun log_loop ::
  "pipeline \<Rightarrow> string list \<Rightarrow> event list \<Rightarrow> 'r explainer \<Rightarrow> entry list \<Rightarrow> exn + entry list"
where
  \<comment> \<open>the loop of \<open>generate_incident_log\<close> over the events still to visit\<close>
  "log_loop pipeline class_names [] explainer log_entries = Inr log_entries"
| "log_loop pipeline class_names (e # es) explainer log_entries =
     (case explain_with_lime pipeline class_names (description e) explainer 5 of
        Inl x \<Rightarrow> Inl x
      | Inr (pred, expl, lime_exp, explainer') \<Rightarrow>
          (case proba_dict class_names (predict_proba pipeline (description e)) of
             Inl x \<Rightarrow> Inl x
           | Inr proba_map \<Rightarrow>
               log_loop pipeline class_names es explainer'
                 (log_entries @ [make_entry e pred proba_map expl])))"

definition generate_incident_log ::
  "(string list \<Rightarrow> 'r explainer) \<Rightarrow> event list \<Rightarrow> pipeline \<Rightarrow> string list \<Rightarrow> exn + entry list"
where
  \<comment> \<open>\<open>LimeTextExplainer\<close> stands for the constructor called on line 112\<close>
  "generate_incident_log LimeTextExplainer events pipeline class_names =
     log_loop pipeline class_names events (LimeTextExplainer class_names) []"

subsection \<open>Sample objects\<close>

text \<open>
  A fitted pipeline that always predicts \<open>major\<close>, an explanation with the keys 2 and 0,
  and an explainer that raises on a text without words and returns this explanation
  otherwise.
\<close>

definition demo_pipeline :: pipeline where
  "demo_pipeline =
     \<lparr>named_steps = [(''tfidfvectorizer'', TfidfVectorizer),
        (''logisticregression'', LogisticRegression [''critical'', ''major'', ''minor''])],
      predict = (\<lambda>text. ''major''),
      predict_proba = (\<lambda>text. [1 / 4, 1 / 2, 1 / 4])\<rparr>"

definition demo_explanation :: lime_explanation where
  "demo_explanation =
     \<lparr>local_exp = [(2, [(0, 1 / 2)]), (0, [(0, - 1 / 4)])],
      as_list = (\<lambda>label. if label = 2 then Inr [(''fire'', 1 / 2)]
                  else if label = 0 then Inr [(''fire'', - 1 / 4)]
                  else Inl (Raised ''KeyError''))\<rparr>"

definition demo_explainer :: "nat explainer" where
  "demo_explainer =
     \<lparr>random_state = 0,
      explain_fn = (\<lambda>r text prob_fn num_features.
        if split text = [] then Inl (Raised ''ValueError'') else Inr (demo_explanation, Suc r))\<rparr>"

section \<open>Root-cause aggregation: what the loops compute\<close>

lemma any_kw_in_iff: "any_kw_in kws t \<longleftrightarrow> (\<exists>kw\<in>set kws. sublist kw t)"
  by (induction kws) auto

lemma match_loop_filter:
  "match_loop tbl t matched = matched @ map fst (filter (\<lambda>(rc, keywords). any_kw_in keywords t) tbl)"
  by (induction tbl arbitrary: matched) auto

lemma match_root_cause_filter:
  "match_root_cause token =
     map fst (filter (\<lambda>(rc, keywords). \<exists>kw\<in>set keywords. sublist kw (lower token)) ROOT_CAUSE_KEYWORDS)"
  by (simp add: match_root_cause_def match_loop_filter any_kw_in_iff)

lemma distinct_bucket_names: "distinct (map fst ROOT_CAUSE_KEYWORDS)"
  by code_simp

lemma distinct_match_root_cause: "distinct (match_root_cause token)"
  unfolding match_root_cause_filter
  by (rule distinct_map_filter) (rule distinct_bucket_names)

lemma set_match_root_cause:
  "rc \<in> set (match_root_cause token) \<longleftrightarrow>
     (\<exists>keywords kw. (rc, keywords) \<in> set ROOT_CAUSE_KEYWORDS \<and> kw \<in> set keywords \<and> sublist kw (lower token))"
  unfolding match_root_cause_filter by force

lemma sublist_lower: "sublist s t \<Longrightarrow> sublist (lower s) (lower t)"
proof -
  assume "sublist s t"
  then obtain ps ss where "t = ps @ s @ ss" by (auto simp: sublist_def)
  then have "lower t = lower ps @ lower s @ lower ss" by (simp add: lower_def)
  moreover have "sublist (lower s) (lower ps @ lower s @ lower ss)" by (rule sublist_appendI)
  ultimately show ?thesis by simp
qed

lemma match_root_cause_mono:
  assumes "sublist s t" and "match_root_cause s \<noteq> []"
  shows "match_root_cause t \<noteq> []"
proof -
  from assms(2) obtain rc where "rc \<in> set (match_root_cause s)"
    by (cases "match_root_cause s") auto
  then obtain kws kw where k: "(rc, kws) \<in> set ROOT_CAUSE_KEYWORDS" "kw \<in> set kws"
      "sublist kw (lower s)"
    unfolding set_match_root_cause by blast
  from k(3) sublist_lower [OF assms(1)] have "sublist kw (lower t)"
    by (rule sublist_order.order.trans)
  with k(1,2) have "rc \<in> set (match_root_cause t)"
    unfolding set_match_root_cause by blast
  then show ?thesis by auto
qed

text \<open>
  The second attempt of lines 56 to 61, on the parts of a token that matched nothing,
  never finds a match: every part is contained in the token.
\<close>

lemma split_acc_sublist:
  "st \<in> set (split_acc cur s) \<Longrightarrow> \<forall>c\<in>set cur. \<not> isspace c \<Longrightarrow>
     sublist st (cur @ s) \<and> (\<forall>c\<in>set st. \<not> isspace c)"
proof (induction s arbitrary: cur)
  case Nil
  from Nil.prems(1) have "st = cur" by (simp split: if_splits)
  with Nil.prems(2) show ?case by simp
next
  case (Cons c cs)
  show ?case
  proof (cases "isspace c")
    case True
    from Cons.prems(1) True have "st = cur \<or> st \<in> set (split_acc [] cs)"
      by (simp split: if_splits)
    then show ?thesis
    proof
      assume e: "st = cur"
      have "sublist cur (cur @ c # cs)" by (rule sublist_append_rightI)
      with e Cons.prems(2) show ?thesis by simp
    next
      assume "st \<in> set (split_acc [] cs)"
      then have "sublist st ([] @ cs) \<and> (\<forall>c\<in>set st. \<not> isspace c)"
        by (rule Cons.IH) simp
      then have s: "sublist st cs" and n: "\<forall>c\<in>set st. \<not> isspace c"
        by simp_all
      have "sublist cs ((cur @ [c]) @ cs)" by (rule sublist_append_leftI)
      then have "sublist cs (cur @ c # cs)" by simp
      with s have "sublist st (cur @ c # cs)"
        by (rule sublist_order.order.trans)
      with n show ?thesis by simp
    qed
  next
    case False
    with Cons.prems(1) have m: "st \<in> set (split_acc (cur @ [c]) cs)" by simp
    from Cons.prems(2) False have "\<forall>x\<in>set (cur @ [c]). \<not> isspace x" by simp
    with m have "sublist st ((cur @ [c]) @ cs) \<and> (\<forall>c\<in>set st. \<not> isspace c)"
      by (rule Cons.IH)
    then show ?thesis by simp
  qed
qed

lemma subtoks_sublist:
  assumes "st \<in> set (subtoks token)"
  shows "sublist st token"
proof -
  let ?f = "\<lambda>c. if c = CHR ''_'' then CHR '' '' else c"
  from assms have "st \<in> set (split_acc [] (map ?f token))"
    by (simp add: subtoks_def split_def replace_char_def)
  from split_acc_sublist [OF this] have s: "sublist st (map ?f token)"
    and n: "\<forall>c\<in>set st. \<not> isspace c" by auto
  from sublist_map_rightE [OF s] obtain seg where seg: "sublist seg token" "st = map ?f seg"
    by blast
  have sp: "isspace CHR '' ''" by (simp add: isspace_def)
  have "map ?f seg = seg"
  proof (rule map_idI)
    fix c assume "c \<in> set seg"
    with seg(2) have "?f c \<in> set st" by auto
    with n sp have "?f c \<noteq> CHR '' ''" by metis
    then show "?f c = c" by (auto split: if_splits)
  qed
  with seg show ?thesis by simp
qed

lemma first_subtok_match_Nil:
  "\<forall>st\<in>set sts. match_root_cause st = [] \<Longrightarrow> first_subtok_match sts = []"
  by (induction sts) (auto simp: Let_def)

lemma matched_of_eq: "matched_of token = match_root_cause token"
proof (cases "match_root_cause token = []")
  case True
  have "\<forall>st\<in>set (subtoks token). match_root_cause st = []"
  proof
    fix st assume "st \<in> set (subtoks token)"
    then have "sublist st token" by (rule subtoks_sublist)
    then show "match_root_cause st = []" using match_root_cause_mono [of st token] True by blast
  qed
  then have "first_subtok_match (subtoks token) = []" by (rule first_subtok_match_Nil)
  with True show ?thesis by (simp add: matched_of_def)
next
  case False
  then show ?thesis by (simp add: matched_of_def)
qed

lemma dict_get_dict_add:
  "dict_get (dict_add k w d) k' = (if k' = k then dict_get d k + w else dict_get d k')"
  by (induction d) auto


lemma scores_fold_credit:
  "distinct ms \<Longrightarrow>
     dict_get (rc_scores (fold (credit w) ms st)) rc =
       dict_get (rc_scores st) rc + (if rc \<in> set ms then w else 0)"
proof (induction ms arbitrary: st)
  case Nil
  then show ?case by simp
next
  case (Cons m ms)
  from Cons.prems have d: "distinct ms" and n: "m \<notin> set ms" by simp_all
  have "dict_get (rc_scores (fold (credit w) (m # ms) st)) rc =
      dict_get (rc_scores (credit w m st)) rc + (if rc \<in> set ms then w else 0)"
    using Cons.IH [OF d, of "credit w m st"] by simp
  also have "dict_get (rc_scores (credit w m st)) rc =
      (if rc = m then dict_get (rc_scores st) m + w else dict_get (rc_scores st) rc)"
    by (simp add: credit_def dict_get_dict_add)
  finally show ?case using n by auto
qed

lemma counts_fold_credit:
  "distinct ms \<Longrightarrow>
     dict_get (rc_counts (fold (credit w) ms st)) rc =
       dict_get (rc_counts st) rc + (if rc \<in> set ms then 1 else 0)"
proof (induction ms arbitrary: st)
  case Nil
  then show ?case by simp
next
  case (Cons m ms)
  from Cons.prems have d: "distinct ms" and n: "m \<notin> set ms" by simp_all
  have "dict_get (rc_counts (fold (credit w) (m # ms) st)) rc =
      dict_get (rc_counts (credit w m st)) rc + (if rc \<in> set ms then 1 else 0)"
    using Cons.IH [OF d, of "credit w m st"] by simp
  also have "dict_get (rc_counts (credit w m st)) rc =
      (if rc = m then dict_get (rc_counts st) m + 1 else dict_get (rc_counts st) rc)"
    by (simp add: credit_def dict_get_dict_add)
  finally show ?case using n by auto
qed


lemma no_match_empty: "match_loop ROOT_CAUSE_KEYWORDS [] [] = []"
  by code_simp

lemma no_match_stop_words: "\<forall>w\<in>set stop_words. match_loop ROOT_CAUSE_KEYWORDS w [] = []"
  by code_simp

lemma skipped_no_match: "skipped token \<Longrightarrow> match_root_cause token = []"
proof -
  assume "skipped token"
  then consider "token = []" | "lower token \<in> set stop_words"
    by (auto simp: skipped_def)
  then show ?thesis
  proof cases
    case 1
    then show ?thesis by (simp add: match_root_cause_def lower_def no_match_empty)
  next
    case 2
    with no_match_stop_words show ?thesis by (simp add: match_root_cause_def)
  qed
qed

lemma Other_not_bucket: "''Other'' \<notin> set (map fst ROOT_CAUSE_KEYWORDS)"
  by code_simp

lemma bucket_in_match:
  assumes "(rc, kws) \<in> set ROOT_CAUSE_KEYWORDS"
  shows "rc \<in> set (match_root_cause token) \<longleftrightarrow> (\<exists>kw\<in>set kws. sublist kw (lower token))"
proof -
  have "kws' = kws" if "(rc, kws') \<in> set ROOT_CAUSE_KEYWORDS" for kws'
    using distinct_bucket_names assms that by (meson eq_key_imp_eq_value)
  with assms show ?thesis unfolding set_match_root_cause by blast
qed

lemma scan_feat_cases:
  "scan_feat feat st =
     (if skipped (feat_token feat) then st
      else if match_root_cause (feat_token feat) \<noteq> []
        then fold (credit (feat_weight feat)) (match_root_cause (feat_token feat)) st
      else credit (feat_weight feat) ''Other'' st)"
  by (simp add: scan_feat_def Let_def matched_of_eq)

text \<open>
  Claim C5. One pass of the loop over the features, from any state of the two
  dictionaries: for every bucket \<open>rc\<close> of the taxonomy, with keywords \<open>kws\<close>, the
  score of \<open>rc\<close> grows by the feature's absolute weight and its count by exactly one when
  some keyword of \<open>kws\<close> is contained in the normalized token (stripped of surrounding
  whitespace, lower-cased), and both stay as they were otherwise. Every bucket with a
  containing keyword is credited, so one token may credit several buckets in one pass.
\<close>

theorem scan_feat_credits_matching_buckets:
  assumes "(rc, kws) \<in> set ROOT_CAUSE_KEYWORDS"
  shows "dict_get (rc_scores (scan_feat feat st)) rc =
           dict_get (rc_scores st) rc +
             (if \<exists>kw\<in>set kws. sublist kw (lower (feat_token feat)) then feat_weight feat else 0)
       \<and> dict_get (rc_counts (scan_feat feat st)) rc =
           dict_get (rc_counts st) rc +
             (if \<exists>kw\<in>set kws. sublist kw (lower (feat_token feat)) then 1 else 0)"
proof -
  let ?t = "feat_token feat"
  note m = bucket_in_match [OF assms, of ?t]
  from assms Other_not_bucket have o: "rc \<noteq> ''Other''" by force
  show ?thesis
  proof (cases "skipped ?t")
    case True
    then have "match_root_cause ?t = []" by (rule skipped_no_match)
    with m have "\<not> (\<exists>kw\<in>set kws. sublist kw (lower ?t))" by simp
    with True show ?thesis by (simp add: scan_feat_cases)
  next
    case False
    show ?thesis
    proof (cases "match_root_cause ?t = []")
      case True
      with m have "\<not> (\<exists>kw\<in>set kws. sublist kw (lower ?t))" by simp
      with True False o show ?thesis
        by (simp add: scan_feat_cases credit_def dict_get_dict_add)
    next
      case nonempty: False
      with False have "scan_feat feat st = fold (credit (feat_weight feat)) (match_root_cause ?t) st"
        by (simp add: scan_feat_cases)
      then show ?thesis
        using m by (simp add: scores_fold_credit counts_fold_credit distinct_match_root_cause)
    qed
  qed
qed

theorem scan_feat_credits_matching_buckets_witness:
  "dict_get (rc_scores (scan_feat (JFeat (Some '' Wet Floor'') (Some (- 2)))
       \<lparr>rc_scores = [], rc_counts = []\<rparr>)) ''Slip/Trip (wet floor)'' = 2
   \<and> dict_get (rc_counts (scan_feat (JFeat (Some '' Wet Floor'') (Some (- 2)))
       \<lparr>rc_scores = [], rc_counts = []\<rparr>)) ''Slip/Trip (wet floor)'' = 1"
proof -
  have a: "(''Slip/Trip (wet floor)'', [''slip'', ''slipped'', ''wet'', ''floor'', ''pipe''])
      \<in> set ROOT_CAUSE_KEYWORDS"
    by (simp add: ROOT_CAUSE_KEYWORDS_def)
  have b: "\<exists>kw\<in>set [''slip'', ''slipped'', ''wet'', ''floor'', ''pipe''].
      sublist kw (lower (feat_token (JFeat (Some '' Wet Floor'') (Some (- 2)))))"
    by code_simp
  have c: "feat_weight (JFeat (Some '' Wet Floor'') (Some (- 2))) = 2"
    by (simp add: feat_weight_def)
  show ?thesis
    using scan_feat_credits_matching_buckets [OF a,
        of "JFeat (Some '' Wet Floor'') (Some (- 2))" "\<lparr>rc_scores = [], rc_counts = []\<rparr>"] b c
    by simp
qed

text \<open>
  Claim C6, as amended. A feature token that is not skipped by line 51 (it is not empty
  after stripping and not a stop word) and that matches no bucket adds its absolute weight
  and a count of one to the bucket \<open>Other\<close>. By \<open>match_root_cause_filter\<close>,
  \<open>match_root_cause token = []\<close> says that no keyword of any bucket is contained in the
  lower-cased token.
\<close>

theorem unmatched_kept_token_goes_to_Other:
  assumes "\<not> skipped (feat_token feat)"
    and "match_root_cause (feat_token feat) = []"
  shows "dict_get (rc_scores (scan_feat feat st)) ''Other'' =
           dict_get (rc_scores st) ''Other'' + feat_weight feat
       \<and> dict_get (rc_counts (scan_feat feat st)) ''Other'' =
           dict_get (rc_counts st) ''Other'' + 1"
  using assms by (simp add: scan_feat_cases credit_def dict_get_dict_add)

theorem unmatched_kept_token_goes_to_Other_witness:
  "dict_get (rc_scores (scan_feat (JFeat (Some ''dizziness'') (Some (- 3)))
       \<lparr>rc_scores = [(''Other'', 1)], rc_counts = [(''Other'', 1)]\<rparr>)) ''Other'' = 4
   \<and> dict_get (rc_counts (scan_feat (JFeat (Some ''dizziness'') (Some (- 3)))
       \<lparr>rc_scores = [(''Other'', 1)], rc_counts = [(''Other'', 1)]\<rparr>)) ''Other'' = 2"
proof -
  have a: "\<not> skipped (feat_token (JFeat (Some ''dizziness'') (Some (- 3))))"
    by code_simp
  have b: "match_root_cause (feat_token (JFeat (Some ''dizziness'') (Some (- 3)))) = []"
    by code_simp
  have c: "feat_weight (JFeat (Some ''dizziness'') (Some (- 3))) = 3"
    by (simp add: feat_weight_def)
  show ?thesis
    using unmatched_kept_token_goes_to_Other [OF a b,
        of "\<lparr>rc_scores = [(''Other'', 1)], rc_counts = [(''Other'', 1)]\<rparr>"] c
    by simp
qed

text \<open>
  Claim C6 as stated fails on a stop word: the token \<open>the\<close> matches no bucket, has
  weight 1, and leaves \<open>Other\<close> without score and without count, since line 51 skips it.
\<close>

theorem stop_word_not_counted_in_Other:
  "match_root_cause (feat_token (JFeat (Some ''the'') (Some 1))) = []
   \<and> feat_weight (JFeat (Some ''the'') (Some 1)) = 1
   \<and> dict_get (rc_scores (scan_feat (JFeat (Some ''the'') (Some 1))
         \<lparr>rc_scores = [], rc_counts = []\<rparr>)) ''Other'' = 0
   \<and> dict_get (rc_counts (scan_feat (JFeat (Some ''the'') (Some 1))
         \<lparr>rc_scores = [], rc_counts = []\<rparr>)) ''Other'' = 0"
  by code_simp




lemma mset_sorted_reverse: "mset (sorted_reverse f xs) = mset xs"
  by (simp add: sorted_reverse_def)





lemma sorted_reverse_sorted: "sorted_wrt (\<lambda>a b. f a \<ge> f b) (sorted_reverse f xs)"
proof -
  have "sorted (map f (sort_key f (rev xs)))" by (rule sorted_sort_key)
  then have "sorted_wrt (\<lambda>a b. f a \<le> f b) (sort_key f (rev xs))"
    by (simp add: sorted_wrt_map)
  then show ?thesis by (simp add: sorted_reverse_def sorted_wrt_rev)
qed

lemma sorted_reverse_stable:
  "filter (\<lambda>x. f x = k) (sorted_reverse f xs) = filter (\<lambda>x. f x = k) xs"
proof -
  have "filter (\<lambda>x. f x = k) (sorted_reverse f xs) = rev (filter (\<lambda>x. f x = k) (sort_key f (rev xs)))"
    by (simp add: sorted_reverse_def rev_filter)
  also have "\<dots> = rev (filter (\<lambda>x. f x = k) (rev xs))" by (simp only: sort_key_stable)
  also have "\<dots> = filter (\<lambda>x. f x = k) xs" by (simp add: rev_filter)
  finally show ?thesis .
qed

text \<open>
  Claim C4, as amended. The returned items are the entries of \<open>rc_scores\<close>, in
  non-increasing order of score; entries of equal score keep the order they have in
  \<open>rc_scores\<close>, which is the order in which the buckets were first credited.
\<close>

theorem items_sorted_descending_stable:
  "sorted_wrt (\<lambda>a b. snd a \<ge> snd b) (items incidents)
   \<and> mset (items incidents) = mset (rc_scores (aggregate incidents))
   \<and> filter (\<lambda>x. snd x = s) (items incidents) =
       filter (\<lambda>x. snd x = s) (rc_scores (aggregate incidents))"
  unfolding items_def
  using sorted_reverse_sorted [of snd "rc_scores (aggregate incidents)"]
    mset_sorted_reverse [of snd "rc_scores (aggregate incidents)"]
    sorted_reverse_stable [of snd s "rc_scores (aggregate incidents)"]
  by blast

theorem items_sorted_descending_stable_witness:
  "items [JIncident (Some [JFeat (Some ''wet'') (Some 1), JFeat (Some ''box'') (Some 1),
       JFeat (Some ''fire'') (Some 2)])] =
     [(''Fire/Overheat'', 2), (''Slip/Trip (wet floor)'', 1), (''Falling objects'', 1)]
   \<and> rc_scores (aggregate [JIncident (Some [JFeat (Some ''wet'') (Some 1), JFeat (Some ''box'') (Some 1),
       JFeat (Some ''fire'') (Some 2)])]) =
     [(''Slip/Trip (wet floor)'', 1), (''Falling objects'', 1), (''Fire/Overheat'', 2)]
   \<and> sorted_wrt (\<lambda>a b. snd a \<ge> snd b) (items [JIncident (Some [JFeat (Some ''wet'') (Some 1),
       JFeat (Some ''box'') (Some 1), JFeat (Some ''fire'') (Some 2)])])"
proof -
  have "items [JIncident (Some [JFeat (Some ''wet'') (Some 1), JFeat (Some ''box'') (Some 1),
       JFeat (Some ''fire'') (Some 2)])] =
     [(''Fire/Overheat'', 2), (''Slip/Trip (wet floor)'', 1), (''Falling objects'', 1)]"
    by code_simp
  moreover have "rc_scores (aggregate [JIncident (Some [JFeat (Some ''wet'') (Some 1),
       JFeat (Some ''box'') (Some 1), JFeat (Some ''fire'') (Some 2)])]) =
     [(''Slip/Trip (wet floor)'', 1), (''Falling objects'', 1), (''Fire/Overheat'', 2)]"
    by code_simp
  ultimately show ?thesis
    using items_sorted_descending_stable [of "[JIncident (Some [JFeat (Some ''wet'') (Some 1),
       JFeat (Some ''box'') (Some 1), JFeat (Some ''fire'') (Some 2)])]"]
    by blast
qed

text \<open>
  Claim C4 as stated fails on a tie: \<open>Slip/Trip (wet floor)\<close> is credited before
  \<open>Falling objects\<close>, both reach the score 1, and the first stays before the second,
  against the order of their names.
\<close>

theorem equal_scores_not_in_name_order:
  "\<not> sorted_wrt (\<lambda>a b. snd a > snd b \<or> (snd a = snd b \<and> fst a \<le> fst b))
       (items [JIncident (Some [JFeat (Some ''wet'') (Some 1), JFeat (Some ''box'') (Some 1)])])"
proof -
  have "items [JIncident (Some [JFeat (Some ''wet'') (Some 1), JFeat (Some ''box'') (Some 1)])] =
      [(''Slip/Trip (wet floor)'', 1), (''Falling objects'', 1)]"
    by code_simp
  then show ?thesis by simp
qed

section \<open>Incident log: explanations and probabilities\<close>

text \<open>
  \<open>train_text_classifier\<close> tests nothing about the labels itself: it raises exactly when
  fitting the pipeline raises, with the same exception.
\<close>

lemma train_text_classifier_raises_iff:
  "train_text_classifier fit events = Inl x \<longleftrightarrow>
     fit (map description events)
       (map (\<lambda>e. label_severity (description e) (injured e) (witness_count e)) events) = Inl x"
  by (auto simp: train_text_classifier_def Let_def
      split: sum.splits option.splits estimator.splits)

lemma hd_sort_Min:
  fixes xs :: "int list"
  assumes "xs \<noteq> []"
  shows "hd (sort xs) = Min (set xs)"
proof -
  from assms have ne: "sort xs \<noteq> []" by (metis length_0_conv length_sort)
  then obtain y ys where s: "sort xs = y # ys" by (cases "sort xs") auto
  have "sorted (sort xs)" by simp
  with s have le: "\<forall>z\<in>set ys. y \<le> z" by simp
  have mem: "set (sort xs) = set xs" by simp
  have "Min (set xs) = y"
  proof (rule Min_eqI)
    show "finite (set xs)" by simp
    show "y \<in> set xs" using s mem by auto
    fix z assume "z \<in> set xs"
    with mem s have "z = y \<or> z \<in> set ys" by auto
    with le show "y \<le> z" by auto
  qed
  with s show ?thesis by simp
qed

lemma fallback_index_Min:
  "fallback_index lime_exp =
     (if local_exp lime_exp = [] then 0 else Min (fst ` set (local_exp lime_exp)))"
proof (cases "local_exp lime_exp = []")
  case True
  then show ?thesis by (simp add: fallback_index_def)
next
  case False
  then have ne: "map fst (local_exp lime_exp) \<noteq> []" by simp
  then have "sort (map fst (local_exp lime_exp)) \<noteq> []" by (metis length_0_conv length_sort)
  with False hd_sort_Min [OF ne] show ?thesis by (simp add: fallback_index_def Let_def)
qed

text \<open>
  Claim C10. When the explainer has returned and the class index of the predicted label
  is not a key of \<open>local_exp\<close> (the index could not be resolved, or it is absent from
  the mapping), the features are those of the smallest key of \<open>local_exp\<close>, or of the
  index 0 when \<open>local_exp\<close> is empty; the label returned is \<open>pipeline.predict\<close> on the
  text as it is, whatever index was chosen.
\<close>

theorem fallback_label_index:
  assumes "explain_instance explainer text (predict_proba pipeline) nf = Inr (lime_exp, explainer')"
    and "resolve_label_index pipeline (predict pipeline text) \<notin> Some ` fst ` set (local_exp lime_exp)"
  shows "explain_with_lime pipeline class_names text explainer nf =
     (case as_list lime_exp
             (if local_exp lime_exp = [] then 0 else Min (fst ` set (local_exp lime_exp))) of
        Inl x \<Rightarrow> Inl x
      | Inr feature_list \<Rightarrow>
          Inr (predict pipeline text, map (\<lambda>(f, w). JFeat (Some f) (Some w)) feature_list,
               lime_exp, explainer'))"
proof -
  have "choose_label_index (resolve_label_index pipeline (predict pipeline text)) lime_exp =
      fallback_index lime_exp"
    using assms(2) by (auto simp: choose_label_index_def split: option.splits)
  with assms(1) show ?thesis
    by (simp add: explain_with_lime_def fallback_index_Min)
qed

theorem fallback_label_index_witness:
  "explain_with_lime demo_pipeline [''critical'', ''major'', ''minor''] ''Fire alarm triggered''
      demo_explainer 5 =
     Inr (''major'', [JFeat (Some ''fire'') (Some (- 1 / 4))], demo_explanation,
          demo_explainer\<lparr>random_state := 1\<rparr>)"
proof -
  have a: "explain_instance demo_explainer ''Fire alarm triggered'' (predict_proba demo_pipeline) 5 =
      Inr (demo_explanation, demo_explainer\<lparr>random_state := 1\<rparr>)"
  proof -
    have "split ''Fire alarm triggered'' = [''Fire'', ''alarm'', ''triggered'']" by code_simp
    then show ?thesis by (simp add: explain_instance_def demo_explainer_def)
  qed
  have b: "resolve_label_index demo_pipeline (predict demo_pipeline ''Fire alarm triggered'') = Some 1"
    by code_simp
  have c: "fst ` set (local_exp demo_explanation) = {2, 0}"
    by (simp add: demo_explanation_def)
  have d: "resolve_label_index demo_pipeline (predict demo_pipeline ''Fire alarm triggered'')
      \<notin> Some ` fst ` set (local_exp demo_explanation)"
    unfolding b c by simp
  have e: "local_exp demo_explanation \<noteq> []" by (simp add: demo_explanation_def)
  have f: "as_list demo_explanation 0 = Inr [(''fire'', - 1 / 4)]" by (simp add: demo_explanation_def)
  have g: "predict demo_pipeline ''Fire alarm triggered'' = ''major''" by (simp add: demo_pipeline_def)
  show ?thesis
    using fallback_label_index [OF a d, of "[''critical'', ''major'', ''minor'']"] c e f g
    by simp
qed

text \<open>
  Claim C7, as amended. \<open>explain_with_lime\<close> treats every text alike, a text of zero
  tokens included: it calls the explainer first, and an exception raised there is raised
  to the caller. When it returns, the explainer has returned, the label is
  \<open>pipeline.predict\<close> on the text, and the features are those that \<open>as_list\<close> returned for
  some label index: they are empty only when the explainer's list is.
\<close>

theorem explain_with_lime_no_short_circuit:
  "(explain_instance explainer text (predict_proba pipeline) nf = Inl x \<longrightarrow>
      explain_with_lime pipeline class_names text explainer nf = Inl x)
   \<and> (explain_with_lime pipeline class_names text explainer nf = Inr (pred, expl, lime_exp, explainer') \<longrightarrow>
      explain_instance explainer text (predict_proba pipeline) nf = Inr (lime_exp, explainer')
      \<and> pred = predict pipeline text
      \<and> (\<exists>label feature_list. as_list lime_exp label = Inr feature_list
            \<and> expl = map (\<lambda>(f, w). JFeat (Some f) (Some w)) feature_list))"
  by (auto simp: explain_with_lime_def Let_def split: sum.splits prod.splits)

theorem explain_with_lime_no_short_circuit_witness:
  "explain_with_lime demo_pipeline [] '' '' demo_explainer 5 = Inl (Raised ''ValueError'')
   \<and> explain_instance demo_explainer ''Fire'' (predict_proba demo_pipeline) 5 =
       Inr (demo_explanation, demo_explainer\<lparr>random_state := 1\<rparr>)
   \<and> (\<exists>label feature_list. as_list demo_explanation label = Inr feature_list
        \<and> [JFeat (Some ''fire'') (Some (- 1 / 4))] =
            map (\<lambda>(f, w). JFeat (Some f) (Some w)) feature_list)"
proof -
  have s1: "split '' '' = []" by code_simp
  have a: "explain_instance demo_explainer '' '' (predict_proba demo_pipeline) 5 =
      Inl (Raised ''ValueError'')"
    using s1 by (simp add: explain_instance_def demo_explainer_def)
  have s2: "split ''Fire'' = [''Fire'']" by code_simp
  have b: "explain_with_lime demo_pipeline [] ''Fire'' demo_explainer 5 =
      Inr (''major'', [JFeat (Some ''fire'') (Some (- 1 / 4))], demo_explanation,
           demo_explainer\<lparr>random_state := 1\<rparr>)"
  proof -
    have "resolve_label_index demo_pipeline ''major'' = Some 1" by code_simp
    then show ?thesis
      using s2
      by (simp add: explain_with_lime_def explain_instance_def demo_explainer_def
          demo_pipeline_def demo_explanation_def choose_label_index_def fallback_index_def)
  qed
  from a explain_with_lime_no_short_circuit [of demo_explainer "'' ''" demo_pipeline 5
      "Raised ''ValueError''" "[]"]
  have "explain_with_lime demo_pipeline [] '' '' demo_explainer 5 = Inl (Raised ''ValueError'')"
    by blast
  moreover from b explain_with_lime_no_short_circuit [of demo_explainer "''Fire''" demo_pipeline 5
      _ "[]" "''major''" "[JFeat (Some ''fire'') (Some (- 1 / 4))]" demo_explanation
      "demo_explainer\<lparr>random_state := 1\<rparr>"]
  have "explain_instance demo_explainer ''Fire'' (predict_proba demo_pipeline) 5 =
       Inr (demo_explanation, demo_explainer\<lparr>random_state := 1\<rparr>)
   \<and> (\<exists>label feature_list. as_list demo_explanation label = Inr feature_list
        \<and> [JFeat (Some ''fire'') (Some (- 1 / 4))] =
            map (\<lambda>(f, w). JFeat (Some f) (Some w)) feature_list)"
    by blast
  ultimately show ?thesis by blast
qed

text \<open>
  Claim C7 as stated fails for the empty string and an explainer that raises on a text
  without words: the explainer is called (there is no test on the text before line 86) and
  its exception leaves \<open>explain_with_lime\<close>.
\<close>

theorem empty_text_raises:
  "explain_with_lime demo_pipeline [''critical'', ''major'', ''minor''] [] demo_explainer 5 =
     Inl (Raised ''ValueError'')"
  by (simp add: explain_with_lime_def explain_instance_def demo_explainer_def split_def)

lemma dict_set_new: "k \<notin> fst ` set d \<Longrightarrow> dict_set k v d = d @ [(k, v)]"
  by (induction d) auto

lemma zip_take_length_right: "zip xs (take (length xs) ys) = zip xs ys"
proof (induction xs arbitrary: ys)
  case Nil
  then show ?case by simp
next
  case (Cons x xs)
  then show ?case by (cases ys) simp_all
qed

lemma proba_loop_zip:
  assumes "distinct cn" and "length cn \<le> length pr" and "k \<le> length cn"
  shows "proba_loop cn pr [k..<length cn] (zip (take k cn) (take k pr)) = Inr (zip cn pr)"
  using assms(3)
proof (induction "length cn - k" arbitrary: k)
  case 0
  then have "k = length cn" by simp
  then show ?case by (simp add: zip_take_length_right)
next
  case (Suc n)
  then have k: "k < length cn" by simp
  with assms(2) have kp: "k < length pr" by simp
  have up: "[k..<length cn] = k # [Suc k..<length cn]" using k by (simp add: upt_conv_Cons)
  have "cn ! k \<notin> set (take k cn)"
    using assms(1) k by (metis distinct_take id_take_nth_drop distinct_append
        disjoint_iff list.set_intros(1) order_less_imp_le take_all_iff)
  then have new: "cn ! k \<notin> fst ` set (zip (take k cn) (take k pr))"
    by (auto dest: set_zip_leftD)
  have "dict_set (cn ! k) (pr ! k) (zip (take k cn) (take k pr)) =
      zip (take (Suc k) cn) (take (Suc k) pr)"
    using k kp by (simp add: dict_set_new [OF new] take_Suc_conv_app_nth)
  moreover have "proba_loop cn pr [Suc k..<length cn] (zip (take (Suc k) cn) (take (Suc k) pr)) =
      Inr (zip cn pr)"
    using Suc.hyps(1) [of "Suc k"] Suc.hyps(2) k by simp
  ultimately show ?case using kp by (simp add: up)
qed

lemma proba_dict_zip:
  assumes "distinct cn" and "length pr = length cn"
  shows "proba_dict cn pr = Inr (zip cn pr)"
  using proba_loop_zip [of cn pr 0] assms by (simp add: proba_dict_def)

lemma log_loop_entries:
  fixes explainer :: "'r explainer"
  assumes "log_loop pipeline cn es explainer acc = Inr entries" and "en \<in> set entries"
  shows "en \<in> set acc \<or>
     (\<exists>e\<in>set es. \<exists>pred pm expl. en = make_entry e pred pm expl
        \<and> proba_dict cn (predict_proba pipeline (description e)) = Inr pm)"
  using assms
proof (induction es arbitrary: explainer acc)
  case Nil
  then show ?case by simp
next
  case (Cons e es)
  from Cons.prems(1) obtain pred expl pm and explainer' :: "'r explainer" where
    pm: "proba_dict cn (predict_proba pipeline (description e)) = Inr pm"
    and rest: "log_loop pipeline cn es explainer' (acc @ [make_entry e pred pm expl]) = Inr entries"
    by (auto split: sum.splits prod.splits)
  from Cons.IH [OF rest Cons.prems(2)] pm show ?case by auto
qed

text \<open>
  Line 134 copies the row that \<open>predict_proba\<close> returns: when the names passed to
  \<open>generate_incident_log\<close> are distinct and every row has as many entries as there are
  names, each returned entry maps the names, in their order, to the row for its
  description. The functions do nothing else to the probabilities; what a row adds up to
  is what the pipeline returned.
\<close>

lemma predicted_proba_copies_row:
  fixes LimeTextExplainer :: "string list \<Rightarrow> 'r explainer"
  assumes dist: "distinct class_names"
    and cols: "\<forall>text. length (predict_proba pipeline text) = length class_names"
    and gen: "generate_incident_log LimeTextExplainer events pipeline class_names = Inr entries"
    and mem: "en \<in> set entries"
  shows "predicted_proba en = zip class_names (predict_proba pipeline (description en))"
proof -
  from gen have "log_loop pipeline class_names events (LimeTextExplainer class_names) [] = Inr entries"
    by (simp add: generate_incident_log_def)
  from log_loop_entries [OF this mem] obtain e pred pm expl where
    en: "en = make_entry e pred pm expl"
    and pm: "proba_dict class_names (predict_proba pipeline (description e)) = Inr pm"
    by auto
  from cols have "length (predict_proba pipeline (description e)) = length class_names" by simp
  from proba_dict_zip [OF dist this] pm
  have "pm = zip class_names (predict_proba pipeline (description e))" by simp
  then show ?thesis by (simp add: en make_entry_def)
qed

end
